theory Spec2Isabelle
  imports Main "HOL-Library.Sublist"
begin

section \<open>String primitives used by the scanner\<close>

text \<open>
  The scanner is Python 2 code (its tests use \<^verbatim>\<open>cStringIO\<close>), so its strings are
  byte strings: \<^typ>\<open>string\<close> here.  \<^verbatim>\<open>str.split()\<close> and \<^verbatim>\<open>str.strip()\<close> without
  arguments treat the six ASCII characters tab, line feed, vertical tab, form feed,
  carriage return and space as whitespace.
\<close>

definition isspace :: "char \<Rightarrow> bool" where
  "isspace c \<longleftrightarrow>
     c = CHR 0x09 \<or> c = CHR 0x0A \<or> c = CHR 0x0B \<or> c = CHR 0x0C \<or> c = CHR 0x0D \<or> c = CHR 0x20"

text \<open>
  \<^verbatim>\<open>s.split()\<close>: skip whitespace; stop at the end of the string; otherwise the token is
  the longest run of non-whitespace characters, and the rest is split in the same way.
\<close>

function split :: "string \<Rightarrow> string list" where
  "split s =
     (let r = dropWhile isspace s in
      if r = [] then []
      else takeWhile (\<lambda>c. \<not> isspace c) r # split (dropWhile (\<lambda>c. \<not> isspace c) r))"
  by pat_completeness auto
termination
proof (relation "measure length")
  show "wf (measure length)" by simp
next
  fix s r :: string
  assume r: "r = dropWhile isspace s" and ne: "r \<noteq> []"
  from ne obtain c cs where rc: "r = c # cs" by (cases r) auto
  have "dropWhile isspace s = c # cs" using r rc by simp
  then have "\<not> isspace c"
    unfolding dropWhile_eq_Cons_conv by blast
  then have "length (dropWhile (\<lambda>c. \<not> isspace c) r) \<le> length cs"
    using rc by (simp add: length_dropWhile_le)
  also have "\<dots> < length r" using rc by simp
  also have "\<dots> \<le> length s" using r by (simp add: length_dropWhile_le)
  finally show "(dropWhile (\<lambda>c. \<not> isspace c) r, s) \<in> measure length" by simp
qed

declare split.simps [simp del]

text \<open>\<^verbatim>\<open>s.strip()\<close>: drop the whitespace at both ends.\<close>

definition strip :: "string \<Rightarrow> string" where
  "strip s = rev (dropWhile isspace (rev (dropWhile isspace s)))"

text \<open>\<^verbatim>\<open>sep.join(xs)\<close>.\<close>

fun join :: "string \<Rightarrow> string list \<Rightarrow> string" where
  "join sep [] = []"
| "join sep [x] = x"
| "join sep (x # y # ys) = x @ sep @ join sep (y # ys)"


section \<open>The operating system as the scanner sees it\<close>

text \<open>
  The state holds the contents of the regular files, the current working directory and
  the log of the shell commands run so far, each with its working directory.  Reading
  an existing file and writing a file succeed; directories are not tracked.

  A subprocess is a parameter of the model: given the command line, the working
  directory and the state it starts in, it either makes \<^verbatim>\<open>Popen\<close> or
  \<^verbatim>\<open>communicate\<close> raise, or exits with a return code and its standard output;
  it may change the files in both cases.
\<close>

text \<open>
  The exceptions: those of the scanner module, with the command and the working directory
  that \<^verbatim>\<open>SubprocessError\<close> reports, those of the configuration parser, and the two
  that \<^verbatim>\<open>open\<close> raises.
\<close>

datatype error =
    SubprocessError string string
  | NoTypeError
  | UnknownTypeError string
  | NoSectionError
  | NoOptionError
  | IOError
  | TypeError

datatype proc_result = Raised | Exited int string

type_synonym fs = "string \<rightharpoonup> string"

record os_state =
  files :: fs
  getcwd :: string
  popen_log :: "(string \<times> string) list"

type_synonym shell = "string \<Rightarrow> string \<Rightarrow> os_state \<Rightarrow> proc_result \<times> fs"

definition popen :: "shell \<Rightarrow> string \<Rightarrow> string \<Rightarrow> os_state \<Rightarrow> proc_result \<times> os_state" where
  "popen sh c cwd os =
     (case sh c cwd os of
        (res, fs') \<Rightarrow> (res, os\<lparr>files := fs', popen_log := popen_log os @ [(c, cwd)]\<rparr>))"

definition exists :: "os_state \<Rightarrow> string \<Rightarrow> bool" where
  "exists os p \<longleftrightarrow> files os p \<noteq> None"

definition read_file :: "os_state \<Rightarrow> string \<Rightarrow> error + string" where
  "read_file os p = (case files os p of None \<Rightarrow> Inl IOError | Some content \<Rightarrow> Inr content)"

definition write_file :: "string \<Rightarrow> string \<Rightarrow> os_state \<Rightarrow> os_state" where
  "write_file p content os = os\<lparr>files := (files os)(p \<mapsto> content)\<rparr>"

section \<open>Scanners\<close>

text \<open>
  The priority of a scanner is the integer default of the constructor or, for a scanner
  built from a configuration section, the string the parser returned.
\<close>

datatype pyval = PInt int | PStr string

record scanner =
  name :: string
  priority :: pyval
  cmd :: string
  detect_cmd :: "string option"
  root_path :: "string option"
  cache :: "string option"

text \<open>
  The path functions of the standard library are parameters: \<^verbatim>\<open>os.path.expandvars\<close>,
  \<^verbatim>\<open>expanduser\<close>, \<^verbatim>\<open>normpath\<close> and \<^verbatim>\<open>realpath\<close>.
\<close>

record os_path =
  expandvars :: "string \<Rightarrow> string"
  expanduser :: "string \<Rightarrow> string"
  normpath :: "string \<Rightarrow> string"
  realpath :: "string \<Rightarrow> string"

text \<open>
  \<^verbatim>\<open>SimpleScanner.__init__\<close>.  The constructor also creates the directory of the
  cache file when it is missing; that changes no regular file, so it leaves the modelled
  state as it is.
\<close>

definition canonical :: "os_path \<Rightarrow> string \<Rightarrow> string" where
  "canonical P p = realpath P (normpath P (expanduser P (expandvars P p)))"

definition SimpleScanner ::
  "os_path \<Rightarrow> string \<Rightarrow> string \<Rightarrow> pyval \<Rightarrow> string option \<Rightarrow> string option \<Rightarrow> string option
     \<Rightarrow> scanner" where
  "SimpleScanner P nm c prio dcmd rp ch =
     \<lparr>name = nm, priority = prio, cmd = c, detect_cmd = dcmd,
      root_path = map_option (canonical P) rp,
      cache = map_option (canonical P) ch\<rparr>"



text \<open>
  \<^verbatim>\<open>SimpleScanner.scan\<close>.  \<open>scan_cwd\<close> is the working directory of the discovery
  command, \<open>scan_cmd\<close> the branch that runs it, \<open>have_cache\<close> the variable of that
  name.  In the branch that reads the cache, \<^verbatim>\<open>open\<close> is given the cache path; it would
  raise for \<^verbatim>\<open>None\<close> or a missing file, which \<open>have_cache\<close> excludes.
\<close>

definition scan_cwd :: "scanner \<Rightarrow> string option \<Rightarrow> os_state \<Rightarrow> string" where
  "scan_cwd self path os =
     (let path1 = (case path of None \<Rightarrow> getcwd os | Some p \<Rightarrow> p)
      in case root_path self of None \<Rightarrow> path1 | Some r \<Rightarrow> r)"

definition scan_cmd ::
  "shell \<Rightarrow> scanner \<Rightarrow> string option \<Rightarrow> os_state \<Rightarrow> (error + string list) \<times> os_state" where
  "scan_cmd sh self path os =
     (let cwd = scan_cwd self path os
      in
      case popen sh (cmd self) cwd os of
        (Raised, os1) \<Rightarrow> (Inl (SubprocessError (cmd self) cwd), os1)
      | (Exited rc out, os1) \<Rightarrow>
          if rc \<noteq> 0 then (Inl (SubprocessError (cmd self) cwd), os1)
          else
            (let ret = map strip (split out) in
             (Inr ret,
              case cache self of
                None \<Rightarrow> os1
              | Some cp \<Rightarrow> write_file cp (join [CHR 0x0A] ret) os1)))"

definition have_cache :: "scanner \<Rightarrow> os_state \<Rightarrow> bool" where
  "have_cache self os \<longleftrightarrow> (case cache self of None \<Rightarrow> False | Some cp \<Rightarrow> exists os cp)"

definition scan ::
  "shell \<Rightarrow> scanner \<Rightarrow> string option \<Rightarrow> bool \<Rightarrow> os_state \<Rightarrow> (error + string list) \<times> os_state" where
  "scan sh self path rescan os =
     (if have_cache self os \<and> \<not> rescan then
        (case cache self of
           None \<Rightarrow> (Inl TypeError, os)
         | Some cp \<Rightarrow>
             (case read_file os cp of
                Inl e \<Rightarrow> (Inl e, os)
              | Inr content \<Rightarrow> (Inr (map strip (split content)), os)))
      else scan_cmd sh self path os)"

section \<open>Scanners from a configuration\<close>




text \<open>An exception raised by a call ends the calling function with that exception.\<close>

definition bind :: "error + 'a \<Rightarrow> ('a \<Rightarrow> error + 'b) \<Rightarrow> error + 'b" where
  "bind m f = (case m of Inl e \<Rightarrow> Inl e | Inr v \<Rightarrow> f v)"



section \<open>Notions the properties of the scanner are stated with\<close>

text \<open>
  A token is a non-empty string without whitespace, a blank a string of whitespace only.
  \<open>layout\<close> writes tokens out, each after its gap; in a text that \<open>separated\<close>
  accepts, every gap is blank and every gap but the first is non-empty.
\<close>

definition is_token :: "string \<Rightarrow> bool" where
  "is_token t \<longleftrightarrow> t \<noteq> [] \<and> list_all (\<lambda>c. \<not> isspace c) t"

definition is_blank :: "string \<Rightarrow> bool" where
  "is_blank g \<longleftrightarrow> list_all isspace g"

fun layout :: "(string \<times> string) list \<Rightarrow> string" where
  "layout [] = []"
| "layout ((g, t) # rest) = g @ t @ layout rest"

fun separated_tail :: "(string \<times> string) list \<Rightarrow> bool" where
  "separated_tail [] = True"
| "separated_tail ((g, t) # rest) \<longleftrightarrow>
     g \<noteq> [] \<and> is_blank g \<and> is_token t \<and> separated_tail rest"

fun separated :: "(string \<times> string) list \<Rightarrow> bool" where
  "separated [] = True"
| "separated ((g, t) # rest) \<longleftrightarrow> is_blank g \<and> is_token t \<and> separated_tail rest"

text \<open>
  The discovery command cannot produce a file list: the subprocess did not start (or
  reading from it raised), or it exited with a return code other than \<open>0\<close>.
\<close>

definition failed :: "proc_result \<Rightarrow> bool" where
  "failed r = (case r of Raised \<Rightarrow> True | Exited rc out \<Rightarrow> rc \<noteq> 0)"

section \<open>The matcher, the ranker and the search session\<close>

text \<open>
  The package imports the matching engine from its module \<^verbatim>\<open>core\<close> (class
  \<^verbatim>\<open>FuzzyMatch\<close>), which is not among the sources.  Every definition of this section
  is therefore modelled from the specification, whose words are quoted before it.
\<close>

subsection \<open>Case rule\<close>

text \<open>
  Modelled from the spec: the uppercase letters of the case rule (\<^verbatim>\<open>core\<close> is
  missing).  On byte strings they are \<^verbatim>\<open>A\<close> to \<^verbatim>\<open>Z\<close>, the codes 65 to 90.
\<close>

definition is_upper :: "char \<Rightarrow> bool" where
  "is_upper c \<longleftrightarrow> (65::nat) \<le> of_char c \<and> of_char c \<le> (90::nat)"

text \<open>
  Modelled from the spec: the lowercase letters of the ``lowercase\<rightarrow>uppercase
  transition'' (\<^verbatim>\<open>core\<close> is missing): \<^verbatim>\<open>a\<close> to \<^verbatim>\<open>z\<close>, the codes 97 to 122.
\<close>

definition is_lower :: "char \<Rightarrow> bool" where
  "is_lower c \<longleftrightarrow> (97::nat) \<le> of_char c \<and> of_char c \<le> (122::nat)"

text \<open>
  Modelled from the spec: the folding behind ``case-insensitive'' (\<^verbatim>\<open>core\<close> is
  missing).  Lowering an uppercase letter adds 32 to its code; other characters stay.
\<close>

definition lower :: "char \<Rightarrow> char" where
  "lower c = (if is_upper c then char_of (of_char c + (32::nat)) else c)"

text \<open>
  Modelled from the spec: ``if \<^verbatim>\<open>query\<close> contains any uppercase letter, matching is
  case-sensitive; otherwise matching is case-insensitive'' (\<^verbatim>\<open>core\<close> is missing).
\<close>

definition case_sensitive :: "string \<Rightarrow> bool" where
  "case_sensitive query = list_ex is_upper query"

text \<open>
  Modelled from the spec: a query character and a candidate character compared
  ``case-appropriately'' (\<^verbatim>\<open>core\<close> is missing): as they are when matching is
  case-sensitive, lowered otherwise.
\<close>

definition char_match :: "bool \<Rightarrow> char \<Rightarrow> char \<Rightarrow> bool" where
  "char_match sensitive qc cc = (if sensitive then qc = cc else lower qc = lower cc)"

subsection \<open>Scores\<close>

text \<open>
  Modelled from the spec: ``the exact numeric weights for contiguous/boundary bonuses and
  gap penalties are a tuning surface [...] implementers should expose them as
  constants'' (\<^verbatim>\<open>core\<close> is missing).  They are a parameter of the matcher.
\<close>

record weights =
  contiguous_bonus :: int
  boundary_bonus :: int
  leading_gap_penalty :: int
  interior_gap_penalty :: int

text \<open>
  Modelled from the spec: the separators ``\<^verbatim>\<open>/\<close>, \<^verbatim>\<open>_\<close>, \<^verbatim>\<open>-\<close>, \<^verbatim>\<open>.\<close>,
  whitespace'' (\<^verbatim>\<open>core\<close> is missing).
\<close>

definition is_separator :: "char \<Rightarrow> bool" where
  "is_separator c \<longleftrightarrow>
     c = CHR ''/'' \<or> c = CHR ''_'' \<or> c = CHR ''-'' \<or> c = CHR ''.'' \<or> isspace c"

text \<open>
  Modelled from the spec: ``a match immediately following a separator [...] or at the
  start of the candidate, or following a lowercase\<rightarrow>uppercase transition (camel-case
  boundary)'' (\<^verbatim>\<open>core\<close> is missing).  Position \<open>j\<close> is below the length of the
  candidate wherever the matcher asks.
\<close>

definition is_boundary :: "string \<Rightarrow> nat \<Rightarrow> bool" where
  "is_boundary cand j \<longleftrightarrow>
     j = 0 \<or> is_separator (cand ! (j - 1))
     \<or> (is_lower (cand ! (j - 1)) \<and> is_upper (cand ! j))"

text \<open>
  Modelled from the spec: ``boundary bonus: [such a match] scores higher than a mid-word
  match'' (\<^verbatim>\<open>core\<close> is missing).
\<close>

definition boundary_score :: "weights \<Rightarrow> string \<Rightarrow> nat \<Rightarrow> int" where
  "boundary_score w cand j = (if is_boundary cand j then boundary_bonus w else 0)"

text \<open>
  Modelled from the spec: ``leading-gap penalty: characters in the candidate before the
  first matched character reduce the score proportionally to their count'' (\<^verbatim>\<open>core\<close>
  is missing).  The first query character matched at position \<open>j\<close> has \<open>j\<close> characters
  before it.
\<close>

definition start_score :: "weights \<Rightarrow> string \<Rightarrow> nat \<Rightarrow> int" where
  "start_score w cand j = boundary_score w cand j - leading_gap_penalty w * int j"

text \<open>
  Modelled from the spec: ``contiguous-match bonus: matching immediately after the
  previous matched character scores higher than leaving a gap'' and ``interior-gap
  penalty: unmatched characters between two matched characters reduce the score
  proportionally to the gap length'' (\<^verbatim>\<open>core\<close> is missing).  The previous query
  character was matched at position \<open>k\<close>, this one at \<open>j\<close>, with \<open>k < j\<close>.
\<close>

definition step_score :: "weights \<Rightarrow> string \<Rightarrow> nat \<Rightarrow> nat \<Rightarrow> int" where
  "step_score w cand k j =
     boundary_score w cand j
     + (if j = Suc k then contiguous_bonus w
        else - (interior_gap_penalty w * int (j - k - 1)))"

subsection \<open>Matcher\<close>

text \<open>
  Modelled from the spec: ``Candidate: an immutable string plus its position in the
  original discovery order'' (\<^verbatim>\<open>core\<close> is missing).
\<close>

record candidate =
  cand_string :: string
  cand_order :: nat

text \<open>
  Modelled from the spec: ``MatchResult: reference to a Candidate, a numeric score, and
  an ordered sequence of matched character indices into the candidate'' (\<^verbatim>\<open>core\<close>
  is missing).
\<close>

record match_result =
  mr_candidate :: candidate
  mr_score :: int
  mr_positions :: "nat list"

text \<open>
  Modelled from the spec: ``\<^verbatim>\<open>MatchResult | NoMatch\<close>'', where ``no match is a normal,
  expected outcome represented as an explicit non-match value'' (\<^verbatim>\<open>core\<close> is
  missing).
\<close>

datatype outcome = NoMatch | Match match_result

text \<open>
  Modelled from the spec: ``a dynamic-programming formulation over (query position,
  candidate position) pairs'' (\<^verbatim>\<open>core\<close> is missing).  A row of the table belongs to
  a query character; its cell \<open>j\<close> holds the best alignment of the query up to that
  character that matches the character at candidate position \<open>j\<close>, with its score and
  its positions, or nothing.
\<close>

type_synonym cell = "(int \<times> nat list) option"

text \<open>
  Modelled from the spec: ``keep the alignment with the best cumulative score''
  (\<^verbatim>\<open>core\<close> is missing).  Of two alignments with the same score the one found first
  is kept: ``the algorithm is deterministic''.
\<close>

definition better :: "cell \<Rightarrow> cell \<Rightarrow> cell" where
  "better a b =
     (case a of
        None \<Rightarrow> b
      | Some (sa, pa) \<Rightarrow>
          (case b of None \<Rightarrow> a | Some (sb, pb) \<Rightarrow> if sa < sb then b else a))"

text \<open>
  Modelled from the spec: ``the Matcher must select the alignment that maximizes total
  score, not merely the first found'' (\<^verbatim>\<open>core\<close> is missing): the best of a list of
  cells.
\<close>

definition best :: "cell list \<Rightarrow> cell" where
  "best cells = foldl better None cells"

text \<open>
  Modelled from the spec: the row of the first query character (\<^verbatim>\<open>core\<close> is
  missing): every candidate position ``that matches case-appropriately'' starts an
  alignment there.
\<close>

definition first_row :: "weights \<Rightarrow> bool \<Rightarrow> char \<Rightarrow> string \<Rightarrow> cell list" where
  "first_row w sensitive qc cand =
     map (\<lambda>j. if char_match sensitive qc (cand ! j)
              then Some (start_score w cand j, [j]) else None)
       [0..<length cand]"

text \<open>
  Modelled from the spec: an alignment that ends at position \<open>k\<close>, continued by a
  match at position \<open>j\<close> (\<^verbatim>\<open>core\<close> is missing); the bonuses and penalties are
  ``applied per matched character transition''.
\<close>

definition extend_cell :: "weights \<Rightarrow> string \<Rightarrow> nat \<Rightarrow> nat \<Rightarrow> cell \<Rightarrow> cell" where
  "extend_cell w cand j k prev =
     (case prev of None \<Rightarrow> None | Some (s, ps) \<Rightarrow> Some (s + step_score w cand k j, ps @ [j]))"

text \<open>
  Modelled from the spec: ``for each query character, consider every candidate position
  at or after the previous matched position that matches case-appropriately, and keep the
  alignment with the best cumulative score reachable at that point'' (\<^verbatim>\<open>core\<close> is
  missing).  Matched indices are strictly increasing, so the cell \<open>j\<close> of a row continues
  the cells \<open>k < j\<close> of the row before.
\<close>

definition next_row :: "weights \<Rightarrow> bool \<Rightarrow> char \<Rightarrow> string \<Rightarrow> cell list \<Rightarrow> cell list" where
  "next_row w sensitive qc cand row =
     map (\<lambda>j. if char_match sensitive qc (cand ! j)
              then best (map (\<lambda>k. extend_cell w cand j k (row ! k)) [0..<j]) else None)
       [0..<length cand]"

text \<open>
  Modelled from the spec: the row of the last character of the query \<open>qc # qs\<close>
  (\<^verbatim>\<open>core\<close> is missing), reached row by row.
\<close>

definition last_row :: "weights \<Rightarrow> bool \<Rightarrow> char \<Rightarrow> string \<Rightarrow> string \<Rightarrow> cell list" where
  "last_row w sensitive qc qs cand =
     foldl (\<lambda>row c. next_row w sensitive c cand row) (first_row w sensitive qc cand) qs"

text \<open>
  Modelled from the spec: ``\<^verbatim>\<open>score(query, candidate) -> MatchResult | NoMatch\<close>''
  (\<^verbatim>\<open>core\<close> is missing), with the edge case ``empty query [...] treat as score 0''.
\<close>

definition score :: "weights \<Rightarrow> string \<Rightarrow> candidate \<Rightarrow> outcome" where
  "score w query c =
     (case query of
        [] \<Rightarrow> Match \<lparr>mr_candidate = c, mr_score = 0, mr_positions = []\<rparr>
      | qc # qs \<Rightarrow>
          (case best (last_row w (case_sensitive query) qc qs (cand_string c)) of
             None \<Rightarrow> NoMatch
           | Some (s, ps) \<Rightarrow> Match \<lparr>mr_candidate = c, mr_score = s, mr_positions = ps\<rparr>))"

text \<open>
  Modelled from the spec: ``Subsequence match: all characters of the query appear in the
  candidate in the same relative order, not necessarily contiguous'' (\<^verbatim>\<open>core\<close> is
  missing), the characters compared by the case rule of the query.
\<close>

definition subsequence :: "string \<Rightarrow> string \<Rightarrow> bool" where
  "subsequence query cand = list_emb (char_match (case_sensitive query)) query cand"

text \<open>
  Modelled from the spec: the invariant of a match result (\<^verbatim>\<open>core\<close> is missing):
  ``length equals query length when a match exists [...] matched indices are strictly
  increasing and each indexed character, compared case-appropriately, equals the
  corresponding query character in order''.
\<close>

definition alignment :: "bool \<Rightarrow> string \<Rightarrow> string \<Rightarrow> nat list \<Rightarrow> bool" where
  "alignment sensitive q cand ps \<longleftrightarrow>
     length ps = length q \<and> sorted_wrt (<) ps
     \<and> list_all2 (\<lambda>qc p. p < length cand \<and> char_match sensitive qc (cand ! p)) q ps"

subsection \<open>Ranker\<close>

text \<open>
  Modelled from the spec: ``Primary key: score, descending.  Tie-break 1: candidate
  length, ascending.  Tie-break 2: original discovery order, ascending'' (\<^verbatim>\<open>core\<close>
  is missing).
\<close>

definition ranks_before :: "match_result \<Rightarrow> match_result \<Rightarrow> bool" where
  "ranks_before a b \<longleftrightarrow>
     mr_score b < mr_score a
     \<or> (mr_score a = mr_score b
        \<and> (length (cand_string (mr_candidate a)) < length (cand_string (mr_candidate b))
           \<or> (length (cand_string (mr_candidate a)) = length (cand_string (mr_candidate b))
              \<and> cand_order (mr_candidate a) \<le> cand_order (mr_candidate b))))"

text \<open>
  Modelled from the spec: ``Sorting must be stable under this composite key''
  (\<^verbatim>\<open>core\<close> is missing).  One step of an insertion sort: a result goes before the
  first one it ranks before.
\<close>

fun insert_ranked :: "match_result \<Rightarrow> match_result list \<Rightarrow> match_result list" where
  "insert_ranked a [] = [a]"
| "insert_ranked a (b # bs) =
     (if ranks_before a b then a # b # bs else b # insert_ranked a bs)"

text \<open>
  Modelled from the spec: ``given a collection of MatchResults, produce an ordered
  sequence'' (\<^verbatim>\<open>core\<close> is missing).
\<close>

definition ranker :: "match_result list \<Rightarrow> match_result list" where
  "ranker results = foldr insert_ranked results []"

subsection \<open>Search session\<close>

text \<open>
  Modelled from the spec: the snapshots, ``(query-length, Pool, ranked results)''
  (\<^verbatim>\<open>core\<close> is missing).
\<close>

record snapshot =
  snap_qlen :: nat
  snap_pool :: "candidate list"
  snap_ranked :: "match_result list"

text \<open>
  Modelled from the spec: ``SessionState: current query, stack of [...] snapshots,
  cursor/selection index into the currently displayed ranked list'' (\<^verbatim>\<open>core\<close> is
  missing), together with the full candidate pool that the session holds.
\<close>

record session =
  full_pool :: "candidate list"
  query :: string
  stack :: "snapshot list"
  cursor :: nat

text \<open>
  Modelled from the spec: ``Candidates are created once at session start from the
  discovery provider's output'' (\<^verbatim>\<open>core\<close> is missing), each with its position in
  the discovery order.
\<close>

definition candidates :: "string list \<Rightarrow> candidate list" where
  "candidates strings =
     map (\<lambda>(i, s). \<lparr>cand_string = s, cand_order = i\<rparr>) (enumerate 0 strings)"

text \<open>
  Modelled from the spec: the session in its state Empty at the start (\<^verbatim>\<open>core\<close> is
  missing); ``on failure the Session must start with an empty pool rather than
  terminate''.
\<close>

definition start_session :: "error + string list \<Rightarrow> session" where
  "start_session provided =
     \<lparr>full_pool = (case provided of Inl e \<Rightarrow> [] | Inr strings \<Rightarrow> candidates strings),
      query = [], stack = [], cursor = 0\<rparr>"

text \<open>
  Modelled from the spec: ``it invokes the Matcher over the appropriate subset''
  (\<^verbatim>\<open>core\<close> is missing): the match results of a query in a pool, in the order of the
  pool.
\<close>

definition matches :: "weights \<Rightarrow> string \<Rightarrow> candidate list \<Rightarrow> match_result list" where
  "matches w q pool =
     List.map_filter (\<lambda>c. case score w q c of NoMatch \<Rightarrow> None | Match m \<Rightarrow> Some m) pool"

text \<open>
  Modelled from the spec: ``re-ranks, and produces the list to display'' (\<^verbatim>\<open>core\<close>
  is missing).  The snapshot of a scoring pass holds the candidates that matched as
  the new pool, and the ranked results.
\<close>

definition rescore :: "weights \<Rightarrow> string \<Rightarrow> candidate list \<Rightarrow> snapshot" where
  "rescore w q pool =
     \<lparr>snap_qlen = length q,
      snap_pool = map mr_candidate (matches w q pool),
      snap_ranked = ranker (matches w q pool)\<rparr>"

text \<open>
  Modelled from the spec: ``Empty (query = "", working pool = full candidate pool, no
  ranking performed) and Filtering (query non-empty, working pool = last computed
  Pool)'' (\<^verbatim>\<open>core\<close> is missing).
\<close>

definition working_pool :: "session \<Rightarrow> candidate list" where
  "working_pool s =
     (if query s = [] then full_pool s
      else case stack s of [] \<Rightarrow> full_pool s | sn # older \<Rightarrow> snap_pool sn)"

text \<open>
  Modelled from the spec: ``Append character: [...] the Matcher only needs to re-score
  the current working pool, not the full original pool'' (\<^verbatim>\<open>core\<close> is missing), a
  snapshot being ``pushed on every append''.
\<close>

definition append_char :: "weights \<Rightarrow> session \<Rightarrow> char \<Rightarrow> session" where
  "append_char w s ch =
     s\<lparr>query := query s @ [ch],
       stack := rescore w (query s @ [ch]) (working_pool s) # stack s,
       cursor := 0\<rparr>"

text \<open>
  Modelled from the spec: ``Full query replace: always re-scores from the full candidate
  pool and rebuilds the snapshot stack from scratch'' (\<^verbatim>\<open>core\<close> is missing).
\<close>

definition replace_query :: "weights \<Rightarrow> session \<Rightarrow> string \<Rightarrow> session" where
  "replace_query w s q =
     s\<lparr>query := q,
       stack := (if q = [] then [] else [rescore w q (full_pool s)]),
       cursor := 0\<rparr>"

text \<open>
  Modelled from the spec: ``Delete last character (backspace): the Session must restore
  the working pool that was in effect before the deleted character was appended [...]
  snapshots pushed on every append and popped on every delete; if no snapshot exists for
  the shorter query, the Session must fall back to re-scoring from the full candidate
  pool'' (\<^verbatim>\<open>core\<close> is missing).
\<close>

definition delete_last :: "weights \<Rightarrow> session \<Rightarrow> session" where
  "delete_last w s =
     (if query s = [] then s
      else
        (let q = butlast (query s);
             popped = (case stack s of [] \<Rightarrow> [] | sn # older \<Rightarrow> older)
         in
         if q = [] then s\<lparr>query := [], stack := [], cursor := 0\<rparr>
         else
           (case popped of
              [] \<Rightarrow> replace_query w s q
            | sn # older \<Rightarrow>
                if snap_qlen sn = length q
                then s\<lparr>query := q, stack := popped, cursor := 0\<rparr>
                else replace_query w s q)))"

text \<open>
  Modelled from the spec: the query edits, ``append, delete-last, or full replace''
  (\<^verbatim>\<open>core\<close> is missing).
\<close>

datatype event = Append char | Backspace | Replace string

text \<open>
  Modelled from the spec: ``on each query edit it invokes the Matcher over the
  appropriate subset'' (\<^verbatim>\<open>core\<close> is missing): the transition of an event.
\<close>

definition step :: "weights \<Rightarrow> session \<Rightarrow> event \<Rightarrow> session" where
  "step w s ev =
     (case ev of
        Append ch \<Rightarrow> append_char w s ch
      | Backspace \<Rightarrow> delete_last w s
      | Replace q \<Rightarrow> replace_query w s q)"

text \<open>
  Modelled from the spec: ``only one query-edit transition is in flight at a time''
  (\<^verbatim>\<open>core\<close> is missing): the session after a sequence of events, one after the
  other.
\<close>

definition run :: "weights \<Rightarrow> session \<Rightarrow> event list \<Rightarrow> session" where
  "run w s events = foldl (step w) s events"

text \<open>
  Modelled from the spec: ``the result pool for \<^verbatim>\<open>q\<close>'' (\<^verbatim>\<open>core\<close> is missing),
  computed from scratch: the whole pool for the empty query, otherwise the candidates of
  the pool that match.
\<close>

definition pool_for :: "weights \<Rightarrow> candidate list \<Rightarrow> string \<Rightarrow> candidate list" where
  "pool_for w pool q = (if q = [] then pool else filter (\<lambda>c. score w q c \<noteq> NoMatch) pool)"

text \<open>
  Modelled from the spec: the invariant that its snapshot stack is kept for (\<^verbatim>\<open>core\<close>
  is missing).  Query lengths decrease strictly from the top, every snapshot holds the
  result pool of the prefix of the query of its length, and while the query is not empty
  the top snapshot is the one of the whole query.
\<close>

definition coherent :: "weights \<Rightarrow> session \<Rightarrow> bool" where
  "coherent w s \<longleftrightarrow>
     sorted_wrt (>) (map snap_qlen (stack s))
     \<and> (\<forall>sn\<in>set (stack s).
           0 < snap_qlen sn \<and> snap_qlen sn \<le> length (query s)
           \<and> snap_pool sn = pool_for w (full_pool s) (take (snap_qlen sn) (query s)))
     \<and> (query s \<noteq> [] \<longrightarrow>
           (\<exists>sn older. stack s = sn # older \<and> snap_qlen sn = length (query s)))"

section \<open>Concrete inputs\<close>

text \<open>
  A scanner with a cache and no root path, one with a root path and a detection command,
  a discovery command whose output names a file twice, a subprocess that cannot be
  started, and two states of the file system: without and with a cache file.
\<close>

definition demo_paths :: os_path where
  "demo_paths = \<lparr>expandvars = id, expanduser = id, normpath = id, realpath = id\<rparr>"

definition demo_scanner :: scanner where
  "demo_scanner =
     SimpleScanner demo_paths ''test'' ''find .'' (PInt 0) None None (Some ''/tmp/cache'')"





definition demo_layout :: "(string \<times> string) list" where
  "demo_layout = [([], ''./a''), (''  '', ''./b''), ([CHR 0x0A], ''./a'')]"

definition demo_output :: string where
  "demo_output = layout demo_layout @ [CHR 0x0A]"

definition demo_shell :: shell where
  "demo_shell c cwd os =
     (if c = ''find .'' then Exited 0 demo_output else Exited 1 [], files os)"

definition failing_shell :: shell where
  "failing_shell c cwd os = (Raised, files os)"

definition demo_os :: os_state where
  "demo_os = \<lparr>files = Map.empty, getcwd = ''/home/user'', popen_log = []\<rparr>"

definition cached_os :: os_state where
  "cached_os =
     \<lparr>files = [''/tmp/cache'' \<mapsto> ''x y''], getcwd = ''/home/user'', popen_log = []\<rparr>"


text \<open>
  For the matcher: weights, the pool of the end-to-end scenario of the specification, and
  four keystrokes, the last of which takes the third back.
\<close>

definition demo_weights :: weights where
  "demo_weights =
     \<lparr>contiguous_bonus = 4, boundary_bonus = 3, leading_gap_penalty = 2,
      interior_gap_penalty = 1\<rparr>"

definition demo_pool :: "string list" where
  "demo_pool = [''main.go'', ''pkg/main_test.go'', ''README.md'']"

definition demo_events :: "event list" where
  "demo_events = [Append CHR ''m'', Append CHR ''n'', Append CHR ''x'', Backspace]"

section \<open>Properties of the string primitives\<close>

lemma split_empty: "dropWhile isspace s = [] \<Longrightarrow> split s = []"
  by (subst split.simps) (simp only: Let_def refl if_True)

lemma split_step:
  "dropWhile isspace s \<noteq> [] \<Longrightarrow>
   split s = takeWhile (\<lambda>c. \<not> isspace c) (dropWhile isspace s)
             # split (dropWhile (\<lambda>c. \<not> isspace c) (dropWhile isspace s))"
  by (subst split.simps) (simp only: Let_def if_False)

lemma split_Nil [simp]: "split [] = []"
  by (simp add: split_empty)

text \<open>Every entry of a split is a non-empty run of non-whitespace characters.\<close>

lemma split_token_props:
  "t \<in> set (split s) \<Longrightarrow> t \<noteq> [] \<and> (\<forall>c\<in>set t. \<not> isspace c)"
proof (induction s rule: split.induct)
  case (1 s)
  let ?r = "dropWhile isspace s"
  show ?case
  proof (cases "?r = []")
    case True
    with "1.prems" show ?thesis by (simp add: split_empty)
  next
    case False
    then obtain c cs where rc: "?r = c # cs" by (cases ?r) auto
    then have nc: "\<not> isspace c" unfolding dropWhile_eq_Cons_conv by blast
    from "1.prems" False
    have "t = takeWhile (\<lambda>c. \<not> isspace c) ?r
          \<or> t \<in> set (split (dropWhile (\<lambda>c. \<not> isspace c) ?r))"
      by (simp only: split_step [OF False] set_simps insert_iff)
    then show ?thesis
    proof
      assume t: "t = takeWhile (\<lambda>c. \<not> isspace c) ?r"
      have "t \<noteq> []" using t rc nc by simp
      moreover have "\<forall>c\<in>set t. \<not> isspace c"
        unfolding t by (auto dest: set_takeWhileD)
      ultimately show ?thesis by simp
    next
      assume "t \<in> set (split (dropWhile (\<lambda>c. \<not> isspace c) ?r))"
      with "1.IH" [OF refl False] show ?thesis by simp
    qed
  qed
qed

lemma is_token_split: "t \<in> set (split s) \<Longrightarrow> is_token t"
  using split_token_props [of t s] by (simp add: is_token_def list_all_iff)

lemma strip_no_space:
  assumes "\<forall>c\<in>set t. \<not> isspace c"
  shows "strip t = t"
proof -
  from assms have at_start: "dropWhile isspace t = t" by (cases t) auto
  from assms have "\<forall>c\<in>set (rev t). \<not> isspace c" by simp
  then have at_end: "dropWhile isspace (rev t) = rev t" by (cases "rev t") auto
  show ?thesis by (simp add: strip_def at_start at_end)
qed

text \<open>So the \<^verbatim>\<open>strip\<close> of the list comprehension changes nothing.\<close>

lemma map_strip_split: "map strip (split s) = split s"
  by (rule map_idI) (simp add: split_token_props strip_no_space)

lemma split_skip_space:
  assumes "\<forall>c\<in>set ws. isspace c"
  shows "split (ws @ s) = split s"
proof -
  from assms have "dropWhile isspace (ws @ s) = dropWhile isspace s"
    by (simp add: dropWhile_append)
  then show ?thesis by (simp only: split.simps [of "ws @ s"] split.simps [of s])
qed

lemma split_token:
  assumes "t \<noteq> []" and "\<forall>c\<in>set t. \<not> isspace c" and "s = [] \<or> isspace (hd s)"
  shows "split (t @ s) = t # split s"
proof -
  from assms(1,2) have d: "dropWhile isspace (t @ s) = t @ s" by (cases t) auto
  have tw: "takeWhile (\<lambda>c. \<not> isspace c) (t @ s) = t"
    using assms(2,3) by (cases s) (auto simp: takeWhile_append)
  have dw: "dropWhile (\<lambda>c. \<not> isspace c) (t @ s) = s"
    using assms(2,3) by (cases s) (auto simp: dropWhile_append)
  have "dropWhile isspace (t @ s) \<noteq> []" using d assms(1) by simp
  from split_step [OF this] show ?thesis by (simp only: d tw dw)
qed

text \<open>Splitting a laid-out text gives back its tokens, in their order.\<close>

lemma layout_tail_starts_blank:
  assumes "separated_tail ps" and "is_blank trail"
  shows "layout ps @ trail = [] \<or> isspace (hd (layout ps @ trail))"
proof (cases ps)
  case Nil
  with assms(2) show ?thesis by (cases trail) (simp_all add: is_blank_def)
next
  case (Cons q qs)
  obtain g t where q: "q = (g, t)" by (cases q)
  with assms(1) Cons have "g \<noteq> []" "is_blank g" by simp_all
  then have "isspace (hd g)" by (cases g) (simp_all add: is_blank_def)
  with \<open>g \<noteq> []\<close> show ?thesis using Cons q by simp
qed

lemma split_gap_token:
  assumes "is_blank g" and "is_token t" and "separated_tail ps" and "is_blank trail"
  shows "split (g @ t @ layout ps @ trail) = t # split (layout ps @ trail)"
proof -
  have "split (g @ (t @ layout ps @ trail)) = split (t @ layout ps @ trail)"
    using assms(1) by (intro split_skip_space) (simp add: is_blank_def list_all_iff)
  also have "\<dots> = t # split (layout ps @ trail)"
    using assms(2) layout_tail_starts_blank [OF assms(3,4)]
    by (intro split_token) (simp_all add: is_token_def list_all_iff)
  finally show ?thesis .
qed

lemma split_layout_tail:
  "separated_tail ps \<Longrightarrow> is_blank trail \<Longrightarrow> split (layout ps @ trail) = map snd ps"
proof (induction ps)
  case Nil
  then show ?case
    using split_skip_space [of trail "[]"] by (simp add: is_blank_def list_all_iff)
next
  case (Cons p ps)
  obtain g t where p: "p = (g, t)" by (cases p)
  from Cons.prems p have g: "is_blank g" and t: "is_token t"
    and ps: "separated_tail ps" by simp_all
  from split_gap_token [OF g t ps Cons.prems(2)] Cons.IH [OF ps Cons.prems(2)]
  show ?case using p by simp
qed

lemma split_layout:
  assumes "separated ps" and "is_blank trail"
  shows "split (layout ps @ trail) = map snd ps"
proof (cases ps)
  case Nil
  with assms(2) show ?thesis
    using split_skip_space [of trail "[]"] by (simp add: is_blank_def list_all_iff)
next
  case (Cons p qs)
  obtain g t where p: "p = (g, t)" by (cases p)
  from assms(1) Cons p have g: "is_blank g" and t: "is_token t"
    and qs: "separated_tail qs" by simp_all
  from split_gap_token [OF g t qs assms(2)] split_layout_tail [OF qs assms(2)]
  show ?thesis using p Cons by simp
qed

text \<open>What the scanner writes to its cache splits into the list it wrote.\<close>

lemma split_join_tokens:
  "list_all is_token ts \<Longrightarrow> split (join [CHR 0x0A] ts) = ts"
proof (induction "[CHR 0x0A]" ts rule: join.induct)
  case 1
  then show ?case by simp
next
  case (2 x)
  then show ?case
    using split_token [of x "[]"] by (simp add: is_token_def list_all_iff)
next
  case (3 x y ys)
  let ?rest = "join [CHR 0x0A] (y # ys)"
  from "3.prems" have x: "x \<noteq> []" "\<forall>c\<in>set x. \<not> isspace c"
    and rest: "list_all is_token (y # ys)"
    by (simp_all add: is_token_def list_all_iff)
  have "split (x @ ([CHR 0x0A] @ ?rest)) = x # split ([CHR 0x0A] @ ?rest)"
    using x by (intro split_token) (simp_all add: isspace_def)
  also have "split ([CHR 0x0A] @ ?rest) = split ?rest"
    by (intro split_skip_space) (simp add: isspace_def)
  also have "\<dots> = y # ys" using "3.hyps" rest by simp
  finally show ?case by simp
qed

lemma split_join_split: "split (join [CHR 0x0A] (split s)) = split s"
  by (rule split_join_tokens) (simp add: list_all_iff is_token_split)

lemma demo_tokens: "split demo_output = [''./a'', ''./b'', ''./a'']"
  by code_simp

section \<open>Properties of \<open>scan\<close>\<close>

lemma scan_cached:
  "cache self = Some cp \<Longrightarrow> files os cp = Some content \<Longrightarrow> \<not> rescan \<Longrightarrow>
   scan sh self path rescan os = (Inr (split content), os)"
  by (simp add: scan_def read_file_def have_cache_def exists_def map_strip_split)

lemma scan_uncached:
  "rescan \<or> \<not> have_cache self os \<Longrightarrow> scan sh self path rescan os = scan_cmd sh self path os"
  by (auto simp: scan_def)

lemma have_cache_iff:
  "have_cache self os \<longleftrightarrow> (\<exists>cp content. cache self = Some cp \<and> files os cp = Some content)"
  by (auto simp: have_cache_def exists_def split: option.splits)

lemma scan_cmd_ok:
  "fst (sh (cmd self) (scan_cwd self path os) os) = Exited 0 out \<Longrightarrow>
   scan_cmd sh self path os =
     (Inr (split out),
      case cache self of
        None \<Rightarrow> snd (popen sh (cmd self) (scan_cwd self path os) os)
      | Some cp \<Rightarrow> write_file cp (join [CHR 0x0A] (split out))
                    (snd (popen sh (cmd self) (scan_cwd self path os) os)))"
  by (cases "sh (cmd self) (scan_cwd self path os) os")
     (simp add: scan_cmd_def popen_def Let_def map_strip_split split: option.splits)

lemma scan_cmd_failed:
  "failed (fst (sh (cmd self) (scan_cwd self path os) os)) \<Longrightarrow>
   scan_cmd sh self path os =
     (Inl (SubprocessError (cmd self) (scan_cwd self path os)),
      snd (popen sh (cmd self) (scan_cwd self path os) os))"
  by (cases "sh (cmd self) (scan_cwd self path os) os")
     (auto simp: scan_cmd_def popen_def Let_def failed_def split: proc_result.splits)

lemma not_failed_iff: "\<not> failed r \<longleftrightarrow> (\<exists>out. r = Exited 0 out)"
  by (cases r) (simp_all add: failed_def)

lemma popen_log_popen:
  "popen_log (snd (popen sh c cwd os)) = popen_log os @ [(c, cwd)]"
  by (cases "sh c cwd os") (simp add: popen_def)

lemma popen_log_write_file: "popen_log (write_file p content os) = popen_log os"
  by (simp add: write_file_def)

lemma popen_log_scan_cmd:
  "popen_log (snd (scan_cmd sh self path os))
     = popen_log os @ [(cmd self, scan_cwd self path os)]"
proof (cases "failed (fst (sh (cmd self) (scan_cwd self path os) os))")
  case True
  then show ?thesis by (simp add: scan_cmd_failed popen_log_popen)
next
  case False
  then obtain out where "fst (sh (cmd self) (scan_cwd self path os) os) = Exited 0 out"
    by (auto simp: not_failed_iff)
  then show ?thesis
    by (simp add: scan_cmd_ok popen_log_popen popen_log_write_file split: option.splits)
qed

lemma scan_result_tokens:
  assumes "fst (scan sh self path rescan os) = Inr ret"
  shows "\<exists>s. ret = split s"
proof (cases "rescan \<or> \<not> have_cache self os")
  case True
  note uncached = this
  show ?thesis
  proof (cases "failed (fst (sh (cmd self) (scan_cwd self path os) os))")
    case True
    with assms uncached show ?thesis
      by (simp add: scan_uncached scan_cmd_failed)
  next
    case False
    then obtain out where "fst (sh (cmd self) (scan_cwd self path os) os) = Exited 0 out"
      by (auto simp: not_failed_iff)
    with assms uncached show ?thesis
      by (auto simp: scan_uncached scan_cmd_ok)
  qed
next
  case False
  then obtain cp content
    where "cache self = Some cp" "files os cp = Some content" "\<not> rescan"
    by (auto simp: have_cache_iff)
  with assms show ?thesis by (auto simp: scan_cached)
qed

lemma demo_scanner_simps:
  "cmd demo_scanner = ''find .''" "cache demo_scanner = Some ''/tmp/cache''"
  "root_path demo_scanner = None" "detect_cmd demo_scanner = None"
  by (simp_all add: demo_scanner_def SimpleScanner_def canonical_def demo_paths_def)

lemma demo_scan:
  "fst (scan demo_shell demo_scanner None True demo_os) = Inr [''./a'', ''./b'', ''./a'']"
  by (simp add: scan_def scan_cmd_def popen_def demo_shell_def demo_scanner_simps
        demo_tokens map_strip_split)



text \<open>
  C2.  Every string in a list that \<open>scan\<close> returns, from the discovery command or from
  the cache file, is unchanged by \<open>strip\<close>: it is non-empty and neither begins nor
  ends with a whitespace character.
\<close>

theorem scan_entries_trimmed:
  assumes "fst (scan sh self path rescan os) = Inr ret" and "t \<in> set ret"
  shows "strip t = t \<and> t \<noteq> [] \<and> \<not> isspace (hd t) \<and> \<not> isspace (last t)"
proof -
  from scan_result_tokens [OF assms(1)] assms(2) obtain s where "t \<in> set (split s)" by auto
  from split_token_props [OF this] have ne: "t \<noteq> []" and ns: "\<forall>c\<in>set t. \<not> isspace c"
    by simp_all
  from ne ns have "\<not> isspace (hd t)" "\<not> isspace (last t)" by simp_all
  with ne strip_no_space [OF ns] show ?thesis by simp
qed

theorem scan_entries_trimmed_witness:
  "fst (scan demo_shell demo_scanner None True demo_os) = Inr [''./a'', ''./b'', ''./a'']
   \<and> strip ''./b'' = ''./b''"
  using scan_entries_trimmed [OF demo_scan, of "''./b''"] demo_scan by simp

text \<open>
  C3.  With a cache path configured, the cache file present and no rescan asked for,
  \<open>scan\<close> returns the list read from the cache file and leaves the state as it was: no
  command is run and no file is written.  With a rescan asked for, or without a cache
  file, \<open>scan\<close> runs the discovery command, in the root path if there is one and in
  the given path otherwise; when the command succeeds and a cache path is configured,
  the cache file then holds the newly scanned list, one entry per line.
\<close>

theorem scan_cache_policy:
  "(cache self = Some cp \<and> files os cp = Some content \<and> \<not> rescan \<longrightarrow>
      scan sh self path rescan os = (Inr (split content), os))
   \<and> (rescan \<or> \<not> have_cache self os \<longrightarrow>
        popen_log (snd (scan sh self path rescan os))
          = popen_log os @ [(cmd self, scan_cwd self path os)]
        \<and> (\<forall>out. fst (sh (cmd self) (scan_cwd self path os) os) = Exited 0 out \<longrightarrow>
              fst (scan sh self path rescan os) = Inr (split out)
              \<and> (\<forall>cf. cache self = Some cf \<longrightarrow>
                    files (snd (scan sh self path rescan os)) cf
                      = Some (join [CHR 0x0A] (split out)))))"
  by (auto simp: scan_cached scan_uncached popen_log_scan_cmd scan_cmd_ok write_file_def)

theorem scan_cache_policy_witness:
  "scan demo_shell demo_scanner None False cached_os = (Inr [''x'', ''y''], cached_os)
   \<and> fst (scan demo_shell demo_scanner None True cached_os) = Inr [''./a'', ''./b'', ''./a'']
   \<and> popen_log (snd (scan demo_shell demo_scanner None True cached_os))
        = [(''find .'', ''/home/user'')]
   \<and> files (snd (scan demo_shell demo_scanner None True cached_os)) ''/tmp/cache''
        = Some (''./a'' @ [CHR 0x0A] @ ''./b'' @ [CHR 0x0A] @ ''./a'')"
proof -
  have s: "split ''x y'' = [''x'', ''y'']" by code_simp
  show ?thesis
    using scan_cache_policy [of demo_scanner "''/tmp/cache''" cached_os "''x y''" False
            demo_shell None]
          scan_cache_policy [of demo_scanner "''/tmp/cache''" cached_os "''x y''" True
            demo_shell None]
    by (simp add: demo_scanner_simps cached_os_def s scan_cwd_def demo_shell_def demo_tokens)
qed

text \<open>
  C4.  Let a text consist of tokens, each after a gap of whitespace (only the first gap
  may be empty), and of trailing whitespace.  If the cache file that \<open>scan\<close> reads or
  the output of the discovery command it runs is that text, \<open>scan\<close> returns the
  tokens themselves, one entry each, in the order of the text: nothing is dropped,
  merged or reordered, and a token that occurs twice is returned twice.
\<close>

theorem scan_one_entry_per_token:
  assumes "separated ps" and "is_blank trail"
  shows "(cache self = Some cp \<and> files os cp = Some (layout ps @ trail) \<and> \<not> rescan \<longrightarrow>
            fst (scan sh self path rescan os) = Inr (map snd ps))
       \<and> ((rescan \<or> \<not> have_cache self os)
            \<and> fst (sh (cmd self) (scan_cwd self path os) os) = Exited 0 (layout ps @ trail) \<longrightarrow>
            fst (scan sh self path rescan os) = Inr (map snd ps))"
  using split_layout [OF assms]
  by (auto simp: scan_cached scan_uncached scan_cmd_ok)

theorem scan_one_entry_per_token_witness:
  "separated demo_layout \<and> is_blank [CHR 0x0A]
   \<and> fst (scan demo_shell demo_scanner None True demo_os) = Inr [''./a'', ''./b'', ''./a'']"
proof -
  have a: "separated demo_layout"
    by (simp add: demo_layout_def is_blank_def is_token_def isspace_def)
  have b: "is_blank [CHR 0x0A]" by (simp add: is_blank_def isspace_def)
  from scan_one_entry_per_token [OF a b, of demo_scanner "''/tmp/cache''" demo_os True
         demo_shell None]
  show ?thesis using a b
    by (simp add: demo_scanner_simps demo_shell_def demo_output_def scan_cwd_def demo_layout_def)
qed

text \<open>
  C9.  Let a scanner with a cache path run the discovery command (a rescan is forced, or
  there was no cache file) and return a list.  Then a later \<open>scan\<close> without rescan, in
  any state whose cache file is as that scan left it, returns the same list in the same
  order, whatever the path argument and whatever the command would do now, and changes
  nothing.
\<close>

theorem scan_cache_roundtrip:
  assumes "cache self = Some cp" and "rescan \<or> \<not> have_cache self os"
    and "scan sh self path rescan os = (Inr ret, os1)"
    and "files os2 cp = files os1 cp"
  shows "scan sh2 self path2 False os2 = (Inr ret, os2)"
proof -
  let ?r = "fst (sh (cmd self) (scan_cwd self path os) os)"
  have nf: "\<not> failed ?r"
  proof
    assume "failed ?r"
    with assms(2,3) show False by (simp add: scan_uncached scan_cmd_failed)
  qed
  then obtain out where out: "?r = Exited 0 out" by (auto simp: not_failed_iff)
  from assms(1,2,3) out have ret: "ret = split out"
    and "files os1 cp = Some (join [CHR 0x0A] (split out))"
    by (auto simp: scan_uncached scan_cmd_ok write_file_def)
  with assms(4) have "files os2 cp = Some (join [CHR 0x0A] (split out))" by simp
  from scan_cached [OF assms(1) this, of False sh2 path2]
  show ?thesis by (simp add: ret split_join_split)
qed

theorem scan_cache_roundtrip_witness:
  "scan failing_shell demo_scanner (Some ''/'') False
     (snd (scan demo_shell demo_scanner None True demo_os))
   = (Inr [''./a'', ''./b'', ''./a''], snd (scan demo_shell demo_scanner None True demo_os))"
proof -
  from demo_scan
  have "scan demo_shell demo_scanner None True demo_os
        = (Inr [''./a'', ''./b'', ''./a''], snd (scan demo_shell demo_scanner None True demo_os))"
    by (simp add: prod_eq_iff)
  from scan_cache_roundtrip [OF _ _ this refl, of "''/tmp/cache''" failing_shell "Some ''/''"]
  show ?thesis by (simp add: demo_scanner_simps)
qed

section \<open>Properties of \<open>is_suitable\<close>\<close>





section \<open>Properties of \<open>scanner_from_configparser\<close>\<close>


lemma bind_Inl [simp]: "bind (Inl e) f = Inl e"
  by (simp add: bind_def)










section \<open>Properties of the matcher\<close>

text \<open>
  A cell of the table is empty exactly when no alignment ends there; so the matcher finds
  no match exactly when the query is not a subsequence of the candidate.
\<close>

lemma better_None_iff: "better a b = None \<longleftrightarrow> a = None \<and> b = None"
  by (auto simp: better_def split: option.splits)

lemma foldl_better_None_iff:
  "foldl better acc cells = None \<longleftrightarrow> acc = None \<and> (\<forall>c\<in>set cells. c = None)"
  by (induction cells arbitrary: acc) (auto simp: better_None_iff)

lemma best_None_iff: "best cells = None \<longleftrightarrow> (\<forall>c\<in>set cells. c = None)"
  by (simp add: best_def foldl_better_None_iff)

lemma length_first_row [simp]: "length (first_row w cs qc cand) = length cand"
  by (simp add: first_row_def)

lemma length_next_row [simp]: "length (next_row w cs qc cand row) = length cand"
  by (simp add: next_row_def)

lemma first_row_cell:
  "j < length cand \<Longrightarrow>
   first_row w cs qc cand ! j = None \<longleftrightarrow> \<not> char_match cs qc (cand ! j)"
  by (simp add: first_row_def)

lemma extend_cell_None_iff: "extend_cell w cand j k prev = None \<longleftrightarrow> prev = None"
  by (cases prev) (auto simp: extend_cell_def)

lemma next_row_cell:
  "j < length cand \<Longrightarrow>
   next_row w cs qc cand row ! j = None \<longleftrightarrow>
     \<not> char_match cs qc (cand ! j) \<or> (\<forall>k<j. row ! k = None)"
  by (auto simp: next_row_def best_None_iff extend_cell_None_iff)

lemma last_row_snoc:
  "last_row w cs qc (qs @ [c]) cand = next_row w cs c cand (last_row w cs qc qs cand)"
  by (simp add: last_row_def)

lemma length_last_row [simp]: "length (last_row w cs qc qs cand) = length cand"
  by (cases qs rule: rev_cases) (simp_all add: last_row_snoc, simp add: last_row_def)

lemma list_emb_snoc_iff:
  "list_emb P (xs @ [x]) ys \<longleftrightarrow>
     (\<exists>k<length ys. list_emb P xs (take k ys) \<and> P x (ys ! k))"
proof
  assume "list_emb P (xs @ [x]) ys"
  from list_emb_appendD [OF this] obtain us vs
    where ys: "ys = us @ vs" and xs: "list_emb P xs us" and x: "list_emb P [x] vs" by blast
  from list_emb_ConsD [OF x] obtain us' v vs'
    where vs: "vs = us' @ v # vs'" and v: "P x v" by blast
  let ?k = "length us + length us'"
  have "?k < length ys" using ys vs by simp
  moreover have "take ?k ys = us @ us'" using ys vs by simp
  then have "list_emb P xs (take ?k ys)" using xs by (simp add: list_emb_prefix)
  moreover have "ys ! ?k = v" using ys vs by (simp add: nth_append)
  ultimately show "\<exists>k<length ys. list_emb P xs (take k ys) \<and> P x (ys ! k)"
    using v by blast
next
  assume "\<exists>k<length ys. list_emb P xs (take k ys) \<and> P x (ys ! k)"
  then obtain k where k: "k < length ys" and xs: "list_emb P xs (take k ys)"
    and x: "P x (ys ! k)" by blast
  have "list_emb P [x] (ys ! k # drop (Suc k) ys)" using x by auto
  with xs have "list_emb P (xs @ [x]) (take k ys @ ys ! k # drop (Suc k) ys)"
    by (rule list_emb_append_mono)
  then show "list_emb P (xs @ [x]) ys"
    using k by (simp add: id_take_nth_drop [symmetric])
qed

lemma last_row_cell:
  "j < length cand \<Longrightarrow>
   last_row w cs qc qs cand ! j = None \<longleftrightarrow>
     \<not> (list_emb (char_match cs) (butlast (qc # qs)) (take j cand)
        \<and> char_match cs (last (qc # qs)) (cand ! j))"
proof (induction qs arbitrary: j rule: rev_induct)
  case Nil
  then show ?case by (simp add: last_row_def first_row_cell)
next
  case (snoc c qs)
  let ?q = "qc # qs"
  have "(\<forall>k<j. last_row w cs qc qs cand ! k = None) \<longleftrightarrow>
          \<not> (\<exists>k<j. list_emb (char_match cs) (butlast ?q) (take k cand)
                 \<and> char_match cs (last ?q) (cand ! k))"
    using snoc.IH snoc.prems by auto
  also have "(\<exists>k<j. list_emb (char_match cs) (butlast ?q) (take k cand)
                 \<and> char_match cs (last ?q) (cand ! k)) \<longleftrightarrow>
          (\<exists>k<length (take j cand).
              list_emb (char_match cs) (butlast ?q) (take k (take j cand))
              \<and> char_match cs (last ?q) (take j cand ! k))"
    using snoc.prems by (auto simp: min_def)
  also have "\<dots> \<longleftrightarrow> list_emb (char_match cs) (butlast ?q @ [last ?q]) (take j cand)"
    by (rule list_emb_snoc_iff [symmetric])
  also have "butlast ?q @ [last ?q] = ?q"
    by (rule append_butlast_last_id) simp
  finally have prev: "(\<forall>k<j. last_row w cs qc qs cand ! k = None) \<longleftrightarrow>
          \<not> list_emb (char_match cs) ?q (take j cand)" .
  have "last_row w cs qc (qs @ [c]) cand ! j = None \<longleftrightarrow>
          \<not> char_match cs c (cand ! j) \<or> (\<forall>k<j. last_row w cs qc qs cand ! k = None)"
    using snoc.prems by (simp add: last_row_snoc next_row_cell)
  with prev show ?case by (auto simp: butlast_append)
qed

lemma score_NoMatch_iff:
  "score w q c = NoMatch \<longleftrightarrow> \<not> subsequence q (cand_string c)"
proof (cases q)
  case Nil
  then show ?thesis by (simp add: score_def subsequence_def)
next
  case (Cons qc qs)
  let ?cs = "case_sensitive q" and ?cand = "cand_string c"
  have "score w q c = NoMatch \<longleftrightarrow> best (last_row w ?cs qc qs ?cand) = None"
    using Cons by (auto simp: score_def split: option.splits)
  also have "\<dots> \<longleftrightarrow> (\<forall>j<length ?cand. last_row w ?cs qc qs ?cand ! j = None)"
    by (simp add: best_None_iff all_set_conv_all_nth)
  also have "\<dots> \<longleftrightarrow> \<not> (\<exists>j<length ?cand.
        list_emb (char_match ?cs) (butlast (qc # qs)) (take j ?cand)
        \<and> char_match ?cs (last (qc # qs)) (?cand ! j))"
    by (auto simp: last_row_cell)
  also have "\<dots> \<longleftrightarrow> \<not> list_emb (char_match ?cs) (butlast (qc # qs) @ [last (qc # qs)]) ?cand"
    by (simp only: list_emb_snoc_iff)
  also have "butlast (qc # qs) @ [last (qc # qs)] = q"
    using Cons by (simp only: append_butlast_last_id [of "qc # qs"]) simp
  finally show ?thesis by (simp add: subsequence_def)
qed

lemma mr_candidate_score: "score w q c = Match m \<Longrightarrow> mr_candidate m = c"
  by (auto simp: score_def split: list.splits option.splits)

lemma score_Match_iff:
  "(\<exists>m. score w q c = Match m) \<longleftrightarrow> subsequence q (cand_string c)"
  using score_NoMatch_iff [of w q c] by (cases "score w q c") simp_all

lemma case_sensitive_snoc: "case_sensitive (q @ [ch]) \<longleftrightarrow> case_sensitive q \<or> is_upper ch"
  by (auto simp: case_sensitive_def list_ex_iff)

lemma subsequence_butlast:
  assumes "subsequence (q @ [ch]) cand"
  shows "subsequence q cand"
proof -
  let ?cs = "case_sensitive (q @ [ch])"
  from assms have "list_emb (char_match ?cs) (q @ [ch]) cand"
    by (simp add: subsequence_def)
  from list_emb_appendD [OF this] obtain us vs
    where "cand = us @ vs" and "list_emb (char_match ?cs) q us" by blast
  then have emb: "list_emb (char_match ?cs) q cand" by (simp add: list_emb_prefix)
  show ?thesis
  proof (cases "case_sensitive q = ?cs")
    case True
    with emb show ?thesis by (simp add: subsequence_def)
  next
    case False
    then have cs: "?cs" "\<not> case_sensitive q" by (auto simp: case_sensitive_snoc)
    have "list_emb (char_match True) q cand \<longrightarrow> list_emb (char_match False) q cand"
      by (rule list_emb_mono) (simp add: char_match_def)
    with emb cs show ?thesis by (simp add: subsequence_def)
  qed
qed

lemma score_snoc_NoMatch:
  "score w q c = NoMatch \<Longrightarrow> score w (q @ [ch]) c = NoMatch"
  using subsequence_butlast [of q ch "cand_string c"] by (auto simp: score_NoMatch_iff)

text \<open>
  The positions of a match result satisfy the invariant of the data model: the matcher
  returns an alignment of the whole query.
\<close>

lemma foldl_better_in:
  "foldl better acc cells = Some x \<Longrightarrow> acc = Some x \<or> Some x \<in> set cells"
proof (induction cells arbitrary: acc)
  case Nil
  then show ?case by simp
next
  case (Cons c cells)
  from Cons.prems have "foldl better (better acc c) cells = Some x" by simp
  from Cons.IH [OF this] have "better acc c = Some x \<or> Some x \<in> set cells" .
  moreover have "better acc c = acc \<or> better acc c = c"
    by (auto simp: better_def split: option.splits)
  ultimately show ?case by auto
qed

lemma best_in: "best cells = Some x \<Longrightarrow> Some x \<in> set cells"
  using foldl_better_in [of None cells x] by (simp add: best_def)

lemma first_row_alignment:
  assumes "j < length cand" and "first_row w cs qc cand ! j = Some (s, ps)"
  shows "alignment cs [qc] cand ps \<and> last ps = j"
  using assms by (auto simp: first_row_def alignment_def split: if_splits)

lemma alignment_snoc:
  assumes "alignment cs q cand ps" and "q \<noteq> []" and "last ps < j" and "j < length cand"
    and "char_match cs c (cand ! j)"
  shows "alignment cs (q @ [c]) cand (ps @ [j])"
proof -
  from assms(1) have len: "length ps = length q" and srt: "sorted_wrt (<) ps"
    and all: "list_all2 (\<lambda>qc p. p < length cand \<and> char_match cs qc (cand ! p)) q ps"
    by (simp_all add: alignment_def)
  from len assms(2) have ne: "ps \<noteq> []" by auto
  from ne have split_last: "butlast ps @ [last ps] = ps" by simp
  from srt have "sorted_wrt (<) (butlast ps @ [last ps])" by (simp only: split_last)
  then have "\<forall>p\<in>set (butlast ps). p < last ps" by (simp add: sorted_wrt_append)
  moreover have "set ps = set (butlast ps) \<union> {last ps}"
    by (subst split_last [symmetric]) (simp only: set_append list.set)
  ultimately have "\<forall>p\<in>set ps. p < j" using assms(3) by auto
  with srt have "sorted_wrt (<) (ps @ [j])" by (simp add: sorted_wrt_append)
  moreover from all assms(4,5)
  have "list_all2 (\<lambda>qc p. p < length cand \<and> char_match cs qc (cand ! p)) (q @ [c]) (ps @ [j])"
    by (simp add: list_all2_appendI)
  ultimately show ?thesis using len by (simp add: alignment_def)
qed

lemma next_row_alignment:
  assumes "j < length cand" and "length row = length cand"
    and "next_row w cs c cand row ! j = Some (s, ps)"
    and "q \<noteq> []"
    and "\<And>k s' ps'. k < length cand \<Longrightarrow> row ! k = Some (s', ps') \<Longrightarrow>
            alignment cs q cand ps' \<and> last ps' = k"
  shows "alignment cs (q @ [c]) cand ps \<and> last ps = j"
proof -
  from assms(1,3) have m: "char_match cs c (cand ! j)"
    and b: "best (map (\<lambda>k. extend_cell w cand j k (row ! k)) [0..<j]) = Some (s, ps)"
    by (auto simp: next_row_def split: if_splits)
  from best_in [OF b] obtain k where k: "k < j"
    and e: "extend_cell w cand j k (row ! k) = Some (s, ps)" by auto
  from e obtain s' ps' where r: "row ! k = Some (s', ps')" and ps: "ps = ps' @ [j]"
    by (auto simp: extend_cell_def split: option.splits)
  from k assms(1) have "k < length cand" by simp
  from assms(5) [OF this r] have a: "alignment cs q cand ps'" and l: "last ps' = k" by simp_all
  from alignment_snoc [OF a assms(4) _ assms(1) m] l k ps show ?thesis by simp
qed

lemma last_row_alignment:
  "j < length cand \<Longrightarrow> last_row w cs qc qs cand ! j = Some (s, ps) \<Longrightarrow>
   alignment cs (qc # qs) cand ps \<and> last ps = j"
proof (induction qs arbitrary: j s ps rule: rev_induct)
  case Nil
  then show ?case using first_row_alignment [of j cand w cs qc s ps] by (simp add: last_row_def)
next
  case (snoc c qs)
  from snoc.prems(2)
  have "next_row w cs c cand (last_row w cs qc qs cand) ! j = Some (s, ps)"
    by (simp add: last_row_snoc)
  from next_row_alignment [OF snoc.prems(1) _ this, of "qc # qs"] snoc.IH
  show ?case by simp
qed

lemma score_positions:
  assumes "score w q c = Match m"
  shows "alignment (case_sensitive q) q (cand_string c) (mr_positions m)"
proof (cases q)
  case Nil
  with assms show ?thesis by (auto simp: score_def alignment_def)
next
  case (Cons qc qs)
  with assms obtain s ps
    where b: "best (last_row w (case_sensitive q) qc qs (cand_string c)) = Some (s, ps)"
      and m: "mr_positions m = ps"
    by (auto simp: score_def split: option.splits)
  from best_in [OF b] obtain j where "j < length (cand_string c)"
    and "last_row w (case_sensitive q) qc qs (cand_string c) ! j = Some (s, ps)"
    by (auto simp: in_set_conv_nth)
  from last_row_alignment [OF this] show ?thesis using Cons m by simp
qed

text \<open>
  C5.  For every query and every candidate, and whatever the weights, \<open>score\<close> answers
  \<open>NoMatch\<close> exactly when the query is not a subsequence of the candidate under the
  case rule of the query; when it is one, \<open>score\<close> answers with a match result for
  that candidate.  \<open>score\<close> is a total function with these two kinds of answer: there is
  no error.
\<close>

theorem score_no_match_iff_not_subsequence:
  "(score w q c = NoMatch \<longleftrightarrow> \<not> subsequence q (cand_string c))
   \<and> (subsequence q (cand_string c) \<longrightarrow> (\<exists>m. score w q c = Match m \<and> mr_candidate m = c))"
  using score_NoMatch_iff [of w q c] score_Match_iff [of w q c]
  by (auto dest: mr_candidate_score)

text \<open>
  The query \<^verbatim>\<open>mn\<close> of the end-to-end scenario: a subsequence of
  \<^verbatim>\<open>pkg/main_test.go\<close>, not one of \<^verbatim>\<open>README.md\<close>.
\<close>

theorem score_no_match_iff_not_subsequence_witness:
  "subsequence ''mn'' ''pkg/main_test.go''
   \<and> (\<exists>m. score demo_weights ''mn'' \<lparr>cand_string = ''pkg/main_test.go'', cand_order = 1\<rparr>
            = Match m)
   \<and> \<not> subsequence ''mn'' ''README.md''
   \<and> score demo_weights ''mn'' \<lparr>cand_string = ''README.md'', cand_order = 2\<rparr> = NoMatch"
proof -
  have yes: "subsequence ''mn'' ''pkg/main_test.go''" by code_simp
  have no: "\<not> subsequence ''mn'' ''README.md''" by code_simp
  from score_no_match_iff_not_subsequence
         [of demo_weights "''mn''" "\<lparr>cand_string = ''pkg/main_test.go'', cand_order = 1\<rparr>"]
       score_no_match_iff_not_subsequence
         [of demo_weights "''mn''" "\<lparr>cand_string = ''README.md'', cand_order = 2\<rparr>"]
       yes no
  show ?thesis by auto
qed

text \<open>
  C6.  Smart case: for a query with an uppercase letter \<open>score\<close> finds a match exactly
  when the query is a subsequence of the candidate with characters compared as they
  are; for a query without one, exactly when it is a subsequence with the characters of
  both lowered.  The query \<^verbatim>\<open>foo\<close> matches \<^verbatim>\<open>FOO.txt\<close> and \<^verbatim>\<open>Foo.txt\<close>; the
  query \<^verbatim>\<open>Foo\<close> does not match \<^verbatim>\<open>foo.txt\<close>.
\<close>

theorem smart_case:
  "((\<exists>ch\<in>set q. is_upper ch) \<longrightarrow>
      (score w q c \<noteq> NoMatch \<longleftrightarrow> list_emb (=) q (cand_string c)))
   \<and> (\<not> (\<exists>ch\<in>set q. is_upper ch) \<longrightarrow>
      (score w q c \<noteq> NoMatch \<longleftrightarrow> list_emb (\<lambda>a b. lower a = lower b) q (cand_string c)))
   \<and> score w ''foo'' \<lparr>cand_string = ''FOO.txt'', cand_order = i\<rparr> \<noteq> NoMatch
   \<and> score w ''foo'' \<lparr>cand_string = ''Foo.txt'', cand_order = j\<rparr> \<noteq> NoMatch
   \<and> score w ''Foo'' \<lparr>cand_string = ''foo.txt'', cand_order = k\<rparr> = NoMatch"
proof -
  have cs: "case_sensitive q \<longleftrightarrow> (\<exists>ch\<in>set q. is_upper ch)"
    by (simp add: case_sensitive_def list_ex_iff)
  have t: "char_match True = (=)" and f: "char_match False = (\<lambda>a b. lower a = lower b)"
    by (simp_all add: char_match_def fun_eq_iff)
  have gen: "score w q c \<noteq> NoMatch \<longleftrightarrow> list_emb (char_match (case_sensitive q)) q (cand_string c)"
    by (simp add: score_NoMatch_iff subsequence_def)
  have 1: "subsequence ''foo'' ''FOO.txt''" by code_simp
  have 2: "subsequence ''foo'' ''Foo.txt''" by code_simp
  have 3: "\<not> subsequence ''Foo'' ''foo.txt''" by code_simp
  have sensitive: "(\<exists>ch\<in>set q. is_upper ch) \<longrightarrow>
      (score w q c \<noteq> NoMatch \<longleftrightarrow> list_emb (=) q (cand_string c))"
    by (simp add: gen cs [symmetric] t)
  have insensitive: "\<not> (\<exists>ch\<in>set q. is_upper ch) \<longrightarrow>
      (score w q c \<noteq> NoMatch \<longleftrightarrow> list_emb (\<lambda>a b. lower a = lower b) q (cand_string c))"
    by (simp add: gen cs [symmetric] f)
  from 1 2 3 sensitive insensitive show ?thesis
    by (simp only: score_NoMatch_iff candidate.simps simp_thms)
qed

theorem smart_case_witness:
  "(\<exists>ch\<in>set ''Foo''. is_upper ch)
   \<and> score demo_weights ''Foo'' \<lparr>cand_string = ''Foo.txt'', cand_order = 0\<rparr> \<noteq> NoMatch
   \<and> \<not> (\<exists>ch\<in>set ''foo''. is_upper ch)
   \<and> score demo_weights ''foo'' \<lparr>cand_string = ''FOO.txt'', cand_order = 0\<rparr> \<noteq> NoMatch"
proof -
  have up: "is_upper CHR ''F''" by code_simp
  have low: "\<not> is_upper CHR ''f''" "\<not> is_upper CHR ''o''" by code_simp+
  have same: "list_emb (=) ''Foo'' ''Foo.txt''" by code_simp
  have folded: "list_emb (\<lambda>a b. lower a = lower b) ''foo'' ''FOO.txt''" by code_simp
  from smart_case [of "''Foo''" demo_weights "\<lparr>cand_string = ''Foo.txt'', cand_order = 0\<rparr>"]
       smart_case [of "''foo''" demo_weights "\<lparr>cand_string = ''FOO.txt'', cand_order = 0\<rparr>"]
       up low same folded
  show ?thesis by simp
qed

section \<open>Properties of the search session\<close>

lemma snap_pool_rescore:
  "snap_pool (rescore w q pool) = filter (\<lambda>c. score w q c \<noteq> NoMatch) pool"
proof -
  have "map mr_candidate (matches w q pool) = filter (\<lambda>c. score w q c \<noteq> NoMatch) pool"
  proof (induction pool)
    case Nil
    show ?case by (simp add: matches_def)
  next
    case (Cons c pool)
    then show ?case
      by (cases "score w q c")
         (auto simp: matches_def dest: mr_candidate_score)
  qed
  then show ?thesis by (simp add: rescore_def)
qed

lemma working_pool_append_char:
  "working_pool (append_char w s ch)
     = filter (\<lambda>c. score w (query s @ [ch]) c \<noteq> NoMatch) (working_pool s)"
  by (simp add: working_pool_def append_char_def snap_pool_rescore)

lemma score_Nil: "score w [] c \<noteq> NoMatch"
  by (simp add: score_def)

lemma pool_for_filter:
  "pool_for w pool q = filter (\<lambda>c. score w q c \<noteq> NoMatch) pool"
  by (simp add: pool_for_def score_Nil)

lemma pool_for_snoc:
  "pool_for w pool (q @ [ch]) = filter (\<lambda>c. score w (q @ [ch]) c \<noteq> NoMatch) (pool_for w pool q)"
proof -
  have both: "score w q c \<noteq> NoMatch \<and> score w (q @ [ch]) c \<noteq> NoMatch
          \<longleftrightarrow> score w (q @ [ch]) c \<noteq> NoMatch" for c
    using score_snoc_NoMatch [of w q c ch] by blast
  show ?thesis by (simp add: pool_for_filter both)
qed

lemma coherent_working_pool:
  assumes "coherent w s"
  shows "working_pool s = pool_for w (full_pool s) (query s)"
proof (cases "query s = []")
  case True
  then show ?thesis by (simp add: working_pool_def pool_for_def)
next
  case False
  with assms obtain sn older where st: "stack s = sn # older"
    and len: "snap_qlen sn = length (query s)"
    by (auto simp: coherent_def)
  with assms have "snap_pool sn = pool_for w (full_pool s) (take (snap_qlen sn) (query s))"
    by (simp add: coherent_def)
  with False st len show ?thesis by (simp add: working_pool_def)
qed

lemma coherent_start: "coherent w (start_session provided)"
  by (simp add: coherent_def start_session_def)

lemma snap_qlen_rescore [simp]: "snap_qlen (rescore w q pool) = length q"
  by (simp add: rescore_def)

lemma coherent_replace: "coherent w (replace_query w s q)"
  by (simp add: coherent_def replace_query_def snap_pool_rescore pool_for_filter)

lemma coherent_append:
  assumes "coherent w s"
  shows "coherent w (append_char w s ch)"
proof -
  let ?q = "query s" and ?new = "rescore w (query s @ [ch]) (working_pool s)"
  have new_pool: "snap_pool ?new = pool_for w (full_pool s) (?q @ [ch])"
    by (simp add: snap_pool_rescore coherent_working_pool [OF assms] pool_for_snoc)
  have new_len: "snap_qlen ?new = Suc (length ?q)" by simp
  from assms have old: "\<forall>sn\<in>set (stack s). 0 < snap_qlen sn \<and> snap_qlen sn \<le> length ?q
      \<and> snap_pool sn = pool_for w (full_pool s) (take (snap_qlen sn) ?q)"
    and srt: "sorted_wrt (>) (map snap_qlen (stack s))"
    by (simp_all add: coherent_def)
  show ?thesis
    unfolding coherent_def append_char_def
    using old srt new_pool new_len by (auto simp: less_Suc_eq_le)
qed

lemma coherent_delete:
  assumes "coherent w s"
  shows "coherent w (delete_last w s)"
proof (cases "query s = []")
  case True
  with assms show ?thesis by (simp add: delete_last_def)
next
  case False
  let ?q = "butlast (query s)"
  from assms False obtain sn older where st: "stack s = sn # older"
    and len: "snap_qlen sn = length (query s)"
    by (auto simp: coherent_def)
  show ?thesis
  proof (cases "?q = []")
    case True
    with False show ?thesis by (simp add: delete_last_def coherent_def Let_def)
  next
    case q: False
    show ?thesis
    proof (cases older)
      case Nil
      with False q st show ?thesis
        by (simp add: delete_last_def Let_def coherent_replace)
    next
      case (Cons sn' older')
      show ?thesis
      proof (cases "snap_qlen sn' = length ?q")
        case neq: False
        with False q st Cons show ?thesis
          by (simp add: delete_last_def Let_def coherent_replace)
      next
        case eq: True
        from False q st Cons eq
        have dl: "delete_last w s = s\<lparr>query := ?q, stack := older, cursor := 0\<rparr>"
          by (simp add: delete_last_def Let_def)
        from assms st have srt: "sorted_wrt (>) (map snap_qlen older)"
          and old: "\<forall>x\<in>set older. 0 < snap_qlen x
              \<and> snap_pool x = pool_for w (full_pool s) (take (snap_qlen x) (query s))"
          by (simp_all add: coherent_def)
        from srt Cons eq have le: "\<forall>x\<in>set older. snap_qlen x \<le> length ?q"
          by auto
        have tk: "take n (query s) = take n ?q" if "n \<le> length ?q" for n
          using that by (simp add: butlast_conv_take)
        from old le tk
        have old': "\<forall>x\<in>set older. 0 < snap_qlen x \<and> snap_qlen x \<le> length ?q
              \<and> snap_pool x = pool_for w (full_pool s) (take (snap_qlen x) ?q)"
          by simp
        show ?thesis
          unfolding dl coherent_def
          using srt old' Cons eq q by simp
      qed
    qed
  qed
qed

lemma coherent_step: "coherent w s \<Longrightarrow> coherent w (step w s ev)"
  by (cases ev) (simp_all add: step_def coherent_append coherent_delete coherent_replace)

lemma coherent_run: "coherent w s \<Longrightarrow> coherent w (run w s events)"
  unfolding run_def by (induction events arbitrary: s) (simp_all add: coherent_step)

lemma full_pool_step [simp]: "full_pool (step w s ev) = full_pool s"
  by (cases ev) (auto simp: step_def append_char_def delete_last_def replace_query_def Let_def
                     split: list.splits)

lemma full_pool_run [simp]: "full_pool (run w s events) = full_pool s"
  unfolding run_def by (induction events arbitrary: s) simp_all

text \<open>
  C7.  Monotonic narrowing.  The result pool for \<open>q @ [ch]\<close> is a subset of the result
  pool for \<open>q\<close>, candidates being compared with their positions in the discovery
  order.  After any sequence of query edits the working pool of the session is the
  result pool for its current query; and in any session state whatever, appending a
  character leaves a working pool that is a subset of the one before.
\<close>

theorem monotonic_narrowing:
  "set (pool_for w pool (q @ [ch])) \<subseteq> set (pool_for w pool q)
   \<and> working_pool (run w (start_session provided) events)
       = pool_for w (full_pool (start_session provided))
           (query (run w (start_session provided) events))
   \<and> set (working_pool (append_char w s ch)) \<subseteq> set (working_pool s)"
proof -
  have "set (pool_for w pool (q @ [ch])) \<subseteq> set (pool_for w pool q)"
    by (simp add: pool_for_snoc)
  moreover have "working_pool (run w (start_session provided) events)
       = pool_for w (full_pool (start_session provided))
           (query (run w (start_session provided) events))"
    using coherent_working_pool [OF coherent_run [OF coherent_start]] by simp
  moreover have "set (working_pool (append_char w s ch)) \<subseteq> set (working_pool s)"
    by (simp add: working_pool_append_char)
  ultimately show ?thesis by simp
qed

text \<open>
  The scenario of the specification: after \<^verbatim>\<open>m\<close>, \<^verbatim>\<open>n\<close>, \<^verbatim>\<open>x\<close> and a backspace
  the working pool is the one for \<^verbatim>\<open>mn\<close>.
\<close>

theorem monotonic_narrowing_witness:
  "working_pool (run demo_weights (start_session (Inr demo_pool)) demo_events)
     = [\<lparr>cand_string = ''main.go'', cand_order = 0\<rparr>,
        \<lparr>cand_string = ''pkg/main_test.go'', cand_order = 1\<rparr>]"
proof -
  have q: "query (run demo_weights (start_session (Inr demo_pool)) demo_events) = ''mn''"
    by (simp add: run_def step_def demo_events_def append_char_def delete_last_def
          start_session_def Let_def)
  have full: "full_pool (start_session (Inr demo_pool))
     = [\<lparr>cand_string = ''main.go'', cand_order = 0\<rparr>,
        \<lparr>cand_string = ''pkg/main_test.go'', cand_order = 1\<rparr>,
        \<lparr>cand_string = ''README.md'', cand_order = 2\<rparr>]"
    by (simp add: start_session_def candidates_def demo_pool_def)
  have 1: "subsequence ''mn'' ''main.go''" by code_simp
  have 2: "subsequence ''mn'' ''pkg/main_test.go''" by code_simp
  have 3: "\<not> subsequence ''mn'' ''README.md''" by code_simp
  from monotonic_narrowing [of demo_weights _ _ _ "Inr demo_pool" demo_events]
  have "working_pool (run demo_weights (start_session (Inr demo_pool)) demo_events)
       = pool_for demo_weights (full_pool (start_session (Inr demo_pool)))
           (query (run demo_weights (start_session (Inr demo_pool)) demo_events))"
    by simp
  then show ?thesis
    unfolding q full by (simp add: pool_for_filter score_NoMatch_iff 1 2 3)
qed

end
